theory Spec2Isabelle
  imports Main "HOL-Library.AList" "HOL-Library.Sublist" "HOL-Library.Multiset"
begin

section \<open>Strings and the library calls of the crawler\<close>

text \<open>
  A Python \<open>str\<close> is modelled as a \<open>string\<close>; a \<open>char\<close> stands for the code point of the
  same number, so the model covers the code points below 256 (ASCII and Latin-1). The
  exceptions that can leave the modelled methods are values of \<open>py_error\<close>.
\<close>

datatype py_error = IndexError | ValueError

definition code_point :: "char \<Rightarrow> nat" where
  "code_point c = of_char c"

definition ascii_upper :: "char \<Rightarrow> bool" where
  "ascii_upper c = (65 \<le> code_point c \<and> code_point c \<le> 90)"

definition ascii_lower :: "char \<Rightarrow> bool" where
  "ascii_lower c = (97 \<le> code_point c \<and> code_point c \<le> 122)"

definition ascii_digit :: "char \<Rightarrow> bool" where
  "ascii_digit c = (48 \<le> code_point c \<and> code_point c \<le> 57)"

definition ascii_letter :: "char \<Rightarrow> bool" where
  "ascii_letter c = (ascii_upper c \<or> ascii_lower c)"

text \<open>\<open>c.isascii()\<close>: the code point is below 128.\<close>

definition char_isascii :: "char \<Rightarrow> bool" where
  "char_isascii c = (code_point c < 128)"

text \<open>
  \<open>c.isalpha()\<close> on the code points below 256: the ASCII letters, and the Latin-1
  letters U+00AA, U+00B5, U+00BA, U+00C0..U+00D6, U+00D8..U+00F6, U+00F8..U+00FF.
\<close>

definition char_isalpha :: "char \<Rightarrow> bool" where
  "char_isalpha c =
     (let n = code_point c in
      ascii_letter c \<or> n = 170 \<or> n = 181 \<or> n = 186 \<or>
      (192 \<le> n \<and> n \<le> 214) \<or> (216 \<le> n \<and> n \<le> 246) \<or> 248 \<le> n)"

text \<open>
  \<open>c.isspace()\<close> on the code points below 256, the separators of \<open>str.split()\<close>:
  U+0009..U+000D, U+001C..U+0020, U+0085 and U+00A0.
\<close>

definition char_isspace :: "char \<Rightarrow> bool" where
  "char_isspace c =
     (let n = code_point c in
      (9 \<le> n \<and> n \<le> 13) \<or> (28 \<le> n \<and> n \<le> 32) \<or> n = 133 \<or> n = 160)"

text \<open>
  \<open>c.lower()\<close> on the code points below 256: \<open>A..Z\<close> and the Latin-1 capitals
  U+00C0..U+00DE (without the multiplication sign U+00D7) move up by 32.
\<close>

definition char_lower :: "char \<Rightarrow> char" where
  "char_lower c =
     (let n = code_point c in
      if ascii_upper c \<or> (192 \<le> n \<and> n \<le> 222 \<and> n \<noteq> 215) then char_of (n + 32) else c)"

definition str_isalpha :: "string \<Rightarrow> bool" where
  "str_isalpha w = (w \<noteq> [] \<and> list_all char_isalpha w)"

definition str_isascii :: "string \<Rightarrow> bool" where
  "str_isascii w = list_all char_isascii w"

definition str_lower :: "string \<Rightarrow> string" where
  "str_lower w = map char_lower w"

subsection \<open>urllib.parse.urlparse\<close>

text \<open>
  \<open>urlparse\<close> is a function of Python's standard library. The crawler reads three
  fields of its result, so the model computes these three, following the steps of
  CPython 3.12's \<open>urlsplit\<close> and \<open>urlparse\<close>: leading characters up to U+0020 are stripped,
  tab, line feed and carriage return are removed, a scheme is split off at the first
  colon when everything before it is a letter followed by letters, digits, \<open>+\<close>, \<open>-\<close>
  or \<open>.\<close>, a network location follows a leading \<open>//\<close> up to the next \<open>/\<close>, \<open>?\<close> or
  \<open>#\<close>, fragment and query are cut off the rest, and for the schemes that take
  parameters the part of the last path segment from its first \<open>;\<close> on is cut off too.
  A network location with one kind of square bracket and not the other raises
  \<open>ValueError\<close>. The validation of the text between a pair of brackets as an IP literal
  and the NFKC check of a non-ASCII network location, which raise \<open>ValueError\<close> too, are
  not part of the model.
\<close>

record parse_result =
  scheme :: string
  netloc :: string
  path :: string

definition scheme_char :: "char \<Rightarrow> bool" where
  "scheme_char c = (ascii_letter c \<or> ascii_digit c \<or> c = CHR ''+'' \<or> c = CHR ''-'' \<or> c = CHR ''.'')"

definition uses_params :: "string list" where
  "uses_params = ['''', ''ftp'', ''hdl'', ''prospero'', ''http'', ''imap'', ''https'', ''shttp'',
     ''rtsp'', ''rtsps'', ''rtspu'', ''sip'', ''sips'', ''mms'', ''sftp'', ''tel'']"

definition lstrip_c0 :: "string \<Rightarrow> string" where
  "lstrip_c0 url = dropWhile (\<lambda>c. code_point c \<le> 32) url"

definition remove_unsafe :: "string \<Rightarrow> string" where
  "remove_unsafe url = filter (\<lambda>c. c \<noteq> CHR 0x09 \<and> c \<noteq> CHR 0x0A \<and> c \<noteq> CHR 0x0D) url"

text \<open>The scheme and the rest: \<open>i = url.find(':')\<close>, \<open>i > 0\<close>, \<open>url[:i]\<close> all scheme characters.\<close>

definition split_scheme :: "string \<Rightarrow> string \<times> string" where
  "split_scheme url =
     (let s = takeWhile (\<lambda>c. c \<noteq> CHR '':'') url in
      if CHR '':'' \<in> set url \<and> s \<noteq> [] \<and> ascii_letter (hd s) \<and> list_all scheme_char s
      then (map char_lower s, drop (Suc (length s)) url)
      else ('''', url))"

text \<open>\<open>_splitnetloc(url, 2)\<close>, called when \<open>url[:2] == '//'\<close>.\<close>

definition netloc_delim :: "char \<Rightarrow> bool" where
  "netloc_delim c = (c = CHR ''/'' \<or> c = CHR ''?'' \<or> c = CHR ''#'')"

definition split_netloc :: "string \<Rightarrow> string \<times> string" where
  "split_netloc url =
     (if take 2 url = ''//''
      then (takeWhile (\<lambda>c. \<not> netloc_delim c) (drop 2 url),
            dropWhile (\<lambda>c. \<not> netloc_delim c) (drop 2 url))
      else ('''', url))"

definition bad_brackets :: "string \<Rightarrow> bool" where
  "bad_brackets n = ((CHR ''['' \<in> set n \<and> CHR '']'' \<notin> set n) \<or> (CHR '']'' \<in> set n \<and> CHR ''['' \<notin> set n))"

text \<open>\<open>_splitparams\<close>: the first \<open>;\<close> at or after the last \<open>/\<close> ends the path.\<close>

definition split_params :: "string \<Rightarrow> string" where
  "split_params url =
     (let seg = rev (takeWhile (\<lambda>c. c \<noteq> CHR ''/'') (rev url));
          pre = take (length url - length seg) url
      in if CHR '';'' \<in> set seg then pre @ takeWhile (\<lambda>c. c \<noteq> CHR '';'') seg else url)"

definition urlparse :: "string \<Rightarrow> py_error + parse_result" where
  "urlparse url0 =
     (let url = remove_unsafe (lstrip_c0 url0);
          (sch, url1) = split_scheme url;
          (nl, url2) = split_netloc url1
      in if bad_brackets nl then Inl ValueError
         else
           let url3 = takeWhile (\<lambda>c. c \<noteq> CHR ''#'') url2;
               url4 = takeWhile (\<lambda>c. c \<noteq> CHR ''?'') url3;
               url5 = (if sch \<in> set uses_params \<and> CHR '';'' \<in> set url4 then split_params url4 else url4)
           in Inr \<lparr>scheme = sch, netloc = nl, path = url5\<rparr>)"

section \<open>The crawler state\<close>

text \<open>
  The attributes of \<open>EnglishWordsParser\<close>. \<open>to_parse_links\<close> is the frontier and
  \<open>parsed_links\<close> the list of the links already parsed, both Python lists.
  \<open>word_frequency\<close> is a dictionary, whose items keep the order of their first insertion:
  a list of pairs with one pair for a key. \<open>current_link\<close> is set by the loop only.
\<close>

record parser =
  base_url :: string
  to_parse_links :: "string list"
  parsed_links :: "string list"
  output_file :: string
  word_frequency :: "(string \<times> int) list"
  current_link :: "string option"

definition extract_base_url :: "string \<Rightarrow> py_error + string" where
  "extract_base_url url =
     (case urlparse url of
        Inl e \<Rightarrow> Inl e
      | Inr parsed_url \<Rightarrow> Inr (scheme parsed_url @ ''://'' @ netloc parsed_url))"

text \<open>\<open>__init__\<close>: \<open>initial_links[0]\<close> raises \<open>IndexError\<close> on the empty list.\<close>

definition init :: "string list \<Rightarrow> string \<Rightarrow> py_error + parser" where
  "init initial_links out =
     (case initial_links of
        [] \<Rightarrow> Inl IndexError
      | first # _ \<Rightarrow>
          (case extract_base_url first of
             Inl e \<Rightarrow> Inl e
           | Inr b \<Rightarrow>
               Inr \<lparr>base_url = b, to_parse_links = initial_links, parsed_links = [],
                    output_file = out, word_frequency = [], current_link = None\<rparr>))"

section \<open>The URL classifier\<close>

text \<open>
  \<open>parse_url\<close>. The conjunction is evaluated from the left and stops at the first false
  conjunct, so the base URL is parsed only when the three conditions before it hold.
\<close>

definition parse_url :: "parser \<Rightarrow> string \<Rightarrow> py_error + parser" where
  "parse_url st url =
     (case urlparse url of
        Inl e \<Rightarrow> Inl e
      | Inr parsed_url \<Rightarrow>
          if (path parsed_url = [] \<or> CHR ''.'' \<notin> set (path parsed_url))
             \<and> url \<notin> set (to_parse_links st) \<and> url \<notin> set (parsed_links st)
          then (case urlparse (base_url st) of
                  Inl e \<Rightarrow> Inl e
                | Inr b \<Rightarrow>
                    if netloc parsed_url = netloc b
                    then Inr (st\<lparr>to_parse_links := to_parse_links st @ [url]\<rparr>)
                    else Inr st)
          else Inr st)"

section \<open>The word extractor\<close>

text \<open>
  \<open>text.split()\<close> with no argument: skip the whitespace, take the characters up to the next
  whitespace as one token, and go on behind it.
\<close>

function split :: "string \<Rightarrow> string list" where
  "split text =
     (let t = dropWhile char_isspace text in
      if t = [] then []
      else takeWhile (\<lambda>c. \<not> char_isspace c) t # split (dropWhile (\<lambda>c. \<not> char_isspace c) t))"
  by pat_completeness auto
termination
proof (relation "measure length", simp, goal_cases)
  case (1 s t)
  then have "t \<noteq> []" and t: "t = dropWhile char_isspace s" by simp_all
  then have "\<not> char_isspace (hd t)"
    using hd_dropWhile by blast
  then have "dropWhile (\<lambda>c. \<not> char_isspace c) t = dropWhile (\<lambda>c. \<not> char_isspace c) (tl t)"
    using \<open>t \<noteq> []\<close> by (cases t) simp_all
  then have "length (dropWhile (\<lambda>c. \<not> char_isspace c) t) \<le> length (tl t)"
    using length_dropWhile_le [of "\<lambda>c. \<not> char_isspace c" "tl t"] by simp
  also have "\<dots> < length t" using \<open>t \<noteq> []\<close> by simp
  also have "\<dots> \<le> length s" unfolding t by (rule length_dropWhile_le)
  finally show ?case by simp
qed

declare split.simps [simp del]

text \<open>
  \<open>self.word_frequency[key] += 1\<close> on a \<open>defaultdict(int)\<close>: a missing key is inserted
  behind the others with the value 0 and then incremented; a key that is there keeps its
  place.
\<close>

definition get_default :: "(string \<times> int) list \<Rightarrow> string \<Rightarrow> int" where
  "get_default d k = (case map_of d k of None \<Rightarrow> 0 | Some v \<Rightarrow> v)"

definition increment :: "(string \<times> int) list \<Rightarrow> string \<Rightarrow> (string \<times> int) list" where
  "increment d k = AList.update k (get_default d k + 1) d"

definition count_word :: "string \<Rightarrow> (string \<times> int) list \<Rightarrow> (string \<times> int) list" where
  "count_word word d = (if str_isalpha word \<and> str_isascii word then increment d (str_lower word) else d)"

definition collect_words_from_text :: "parser \<Rightarrow> string \<Rightarrow> parser" where
  "collect_words_from_text st text =
     st\<lparr>word_frequency := fold count_word (split text) (word_frequency st)\<rparr>"

section \<open>Sorting and saving the table\<close>

text \<open>
  \<open>sorted(items, key=lambda item: item[1], reverse=True)\<close> is a stable sort by descending
  value: items of equal value keep their order. \<open>dict\<close> then inserts the pairs one after
  the other.
\<close>

definition sorted_desc :: "(string \<times> int) list \<Rightarrow> (string \<times> int) list" where
  "sorted_desc items = sort_key (\<lambda>item. - snd item) items"

definition dict :: "(string \<times> int) list \<Rightarrow> (string \<times> int) list" where
  "dict items = fold (\<lambda>item d. AList.update (fst item) (snd item) d) items []"

definition sort_word_frequency :: "parser \<Rightarrow> parser" where
  "sort_word_frequency st = st\<lparr>word_frequency := dict (sorted_desc (word_frequency st))\<rparr>"







section \<open>The crawl loop\<close>

text \<open>
  What one request brings back. \<open>requests.get\<close> and \<open>raise_for_status\<close> raise a
  \<open>RequestException\<close>, or there is a response with its \<open>text\<close>. The HTML parser and
  \<open>urljoin\<close> are library calls too: the second component of a response is the list of
  \<open>urljoin(self.current_link, link['href'])\<close> for the anchors with an \<open>href\<close> that
  \<open>BeautifulSoup\<close> finds in the text, in the order of the document. \<open>urljoin\<close> parses
  the \<open>href\<close> with \<open>urlparse\<close> and raises its \<open>ValueError\<close>; an \<open>href\<close> of this kind
  stands for itself in the list, and the error is raised where the list is read.
\<close>

datatype http_result = RequestException | Response string "string list"

text \<open>\<open>fetch_page_content\<close> returns the empty string for an exception.\<close>

definition fetch_page_content :: "http_result \<Rightarrow> string" where
  "fetch_page_content r = (case r of RequestException \<Rightarrow> '''' | Response text _ \<Rightarrow> text)"

definition absolute_urls :: "http_result \<Rightarrow> string list" where
  "absolute_urls r = (case r of RequestException \<Rightarrow> [] | Response _ urls \<Rightarrow> urls)"

fun find_links_and_add_to_parse :: "parser \<Rightarrow> string list \<Rightarrow> py_error + parser" where
  "find_links_and_add_to_parse st [] = Inr st"
| "find_links_and_add_to_parse st (absolute_url # urls) =
     (case parse_url st absolute_url of
        Inl e \<Rightarrow> Inl e
      | Inr st' \<Rightarrow> find_links_and_add_to_parse st' urls)"

text \<open>
  One pass through the body of the \<open>while\<close> loop of \<open>parse_all_links\<close>, with the result
  of its request. \<open>pop(0)\<close> raises \<open>IndexError\<close> on the empty list; the loop enters the
  body with a non-empty list only. The calls of \<open>print\<close> write to the standard output and
  leave the state as it is; they are not part of the model.
\<close>

definition loop_body :: "http_result \<Rightarrow> parser \<Rightarrow> py_error + parser" where
  "loop_body r st =
     (case to_parse_links st of
        [] \<Rightarrow> Inl IndexError
      | link # rest \<Rightarrow>
          let st1 = st\<lparr>to_parse_links := rest, current_link := Some link\<rparr>;
              page_content = fetch_page_content r
          in if page_content \<noteq> []
             then
               (case find_links_and_add_to_parse
                       (collect_words_from_text st1 page_content) (absolute_urls r) of
                  Inl e \<Rightarrow> Inl e
                | Inr st3 \<Rightarrow> Inr (st3\<lparr>parsed_links := parsed_links st3 @ [link]\<rparr>))
             else Inr st1)"

text \<open>
  \<open>parse_all_links\<close>, given the results of its requests in the order in which it makes
  them. The loop need not end; \<open>None\<close> says that the results ran out before the list of
  links to parse was empty.
\<close>

fun parse_all_links :: "http_result list \<Rightarrow> parser \<Rightarrow> (py_error + parser) option" where
  "parse_all_links [] st = (if to_parse_links st = [] then Some (Inr st) else None)"
| "parse_all_links (r # rs) st =
     (if to_parse_links st = [] then Some (Inr st)
      else (case loop_body r st of
              Inl e \<Rightarrow> Some (Inl e)
            | Inr st' \<Rightarrow> parse_all_links rs st'))"

text \<open>
  The states at the head of the loop, in the order in which the same run passes through
  them.
\<close>

fun run :: "http_result list \<Rightarrow> parser \<Rightarrow> parser list" where
  "run [] st = [st]"
| "run (r # rs) st =
     st # (if to_parse_links st = [] then []
           else (case loop_body r st of Inl e \<Rightarrow> [] | Inr st' \<Rightarrow> run rs st'))"

text \<open>
  The URLs that the same run takes from the front of \<open>to_parse_links\<close> and requests, in
  this order.
\<close>

fun fetched :: "http_result list \<Rightarrow> parser \<Rightarrow> string list" where
  "fetched [] st = []"
| "fetched (r # rs) st =
     (case to_parse_links st of
        [] \<Rightarrow> []
      | link # _ \<Rightarrow>
          link # (case loop_body r st of Inl e \<Rightarrow> [] | Inr st' \<Rightarrow> fetched rs st'))"

section \<open>Notions of the specification\<close>

text \<open>
  The script at the end of the module: \<open>initial_links = ["https://go.dev"]\<close> and
  \<open>output_file = "go_english_words.txt"\<close>. \<open>go_dev\<close> is the crawler that its constructor
  call builds.
\<close>

definition go_dev :: parser where
  "go_dev = \<lparr>base_url = ''https://go.dev'', to_parse_links = [''https://go.dev''],
             parsed_links = [], output_file = ''go_english_words.txt'',
             word_frequency = [], current_link = None\<rparr>"

text \<open>The two checks of the classifier that read the URL alone, as predicates.\<close>

definition page_like :: "string \<Rightarrow> bool" where
  "page_like url =
     (case urlparse url of
        Inl e \<Rightarrow> False
      | Inr p \<Rightarrow> path p = [] \<or> CHR ''.'' \<notin> set (path p))"

definition same_netloc :: "string \<Rightarrow> string \<Rightarrow> bool" where
  "same_netloc base url =
     (case urlparse url of
        Inl e \<Rightarrow> False
      | Inr p \<Rightarrow> (case urlparse base of Inl e \<Rightarrow> False | Inr b \<Rightarrow> netloc p = netloc b))"

text \<open>
  The invariant of the frontier in the words of the specification: every URL of the
  frontier has the scheme and host of the base, is not among the visited ones, and is in
  the frontier once.
\<close>

definition spec_frontier_invariant :: "parser \<Rightarrow> bool" where
  "spec_frontier_invariant st =
     list_all (\<lambda>url. extract_base_url url = Inr (base_url st)
                    \<and> url \<notin> set (parsed_links st)
                    \<and> count_list (to_parse_links st) url = 1)
       (to_parse_links st)"

text \<open>
  What holds of the frontier by the design of the code: no URL is in it twice, and a URL
  in it is a seed or has the network location of the base URL.
\<close>

definition frontier_ok :: "string list \<Rightarrow> parser \<Rightarrow> bool" where
  "frontier_ok seeds st =
     (distinct (to_parse_links st)
      \<and> list_all (\<lambda>url. url \<in> set seeds \<or> same_netloc (base_url st) url) (to_parse_links st))"

text \<open>A key of lower-case ASCII letters.\<close>

definition lower_alpha :: "string \<Rightarrow> bool" where
  "lower_alpha k = (k \<noteq> [] \<and> list_all ascii_lower k)"

text \<open>A token of ASCII letters.\<close>

definition ascii_word :: "string \<Rightarrow> bool" where
  "ascii_word w = (w \<noteq> [] \<and> list_all ascii_letter w)"







section \<open>Evaluations of the library model\<close>

lemma urlparse_go_dev:
  "urlparse ''https://go.dev'' = Inr \<lparr>scheme = ''https'', netloc = ''go.dev'', path = ''''\<rparr>"
  by code_simp




lemma init_go_dev: "init [''https://go.dev''] ''go_english_words.txt'' = Inr go_dev"
  by (simp add: init_def extract_base_url_def urlparse_go_dev go_dev_def)

lemma init_two_seeds:
  "init [''https://go.dev'', ''https://example.com''] ''go_english_words.txt''
     = Inr (go_dev\<lparr>to_parse_links := [''https://go.dev'', ''https://example.com'']\<rparr>)"
  by (simp add: init_def extract_base_url_def urlparse_go_dev go_dev_def)

lemma page_like_doc: "page_like ''https://go.dev/doc''"
  by code_simp

lemma same_netloc_doc: "same_netloc ''https://go.dev'' ''https://go.dev/doc''"
  by code_simp

lemma parse_url_doc:
  "parse_url go_dev ''https://go.dev/doc''
     = Inr (go_dev\<lparr>to_parse_links := [''https://go.dev'', ''https://go.dev/doc'']\<rparr>)"
  by code_simp


lemma loop_body_page:
  "loop_body (Response ''Go go'' [''https://go.dev/doc'']) go_dev
     = Inr (go_dev\<lparr>to_parse_links := [''https://go.dev/doc''], parsed_links := [''https://go.dev''],
                word_frequency := [(''go'', 2)], current_link := Some ''https://go.dev''\<rparr>)"
  by code_simp

lemma loop_body_blog:
  "loop_body (Response ''Go'' [''https://go.dev/doc''])
     (go_dev\<lparr>to_parse_links := [''https://go.dev/blog''], parsed_links := [''https://go.dev''],
             current_link := Some ''https://go.dev/doc''\<rparr>)
   = Inr (go_dev\<lparr>to_parse_links := [''https://go.dev/doc''],
                 parsed_links := [''https://go.dev'', ''https://go.dev/blog''],
                 word_frequency := [(''go'', 1)], current_link := Some ''https://go.dev/blog''\<rparr>)"
  by code_simp

lemma run_example:
  "run [Response ''Go go'' [''https://go.dev/doc''], RequestException] go_dev
     = [go_dev,
        go_dev\<lparr>to_parse_links := [''https://go.dev/doc''], parsed_links := [''https://go.dev''],
                word_frequency := [(''go'', 2)], current_link := Some ''https://go.dev''\<rparr>,
        go_dev\<lparr>to_parse_links := [], parsed_links := [''https://go.dev''],
                word_frequency := [(''go'', 2)], current_link := Some ''https://go.dev/doc''\<rparr>]"
  by code_simp

lemma fetched_example:
  "fetched [Response ''Go go'' [''https://go.dev/doc'', ''https://go.dev/blog''], RequestException,
            Response ''Go'' []] go_dev
     = [''https://go.dev'', ''https://go.dev/doc'', ''https://go.dev/blog'']"
  by code_simp

lemma collect_example:
  "collect_words_from_text go_dev ''The Cat sat on the Mat 4x it's''
     = go_dev\<lparr>word_frequency := [(''the'', 2), (''cat'', 1), (''sat'', 1), (''on'', 1), (''mat'', 1)]\<rparr>"
  by code_simp

section \<open>Characters and tokens\<close>

text \<open>
  The test of the word extractor accepts the tokens of ASCII letters, their lower-case
  form is a key of lower-case letters, and \<open>split\<close> cuts a text at its whitespace.
\<close>

lemma char_accepted: "(char_isalpha c \<and> char_isascii c) = ascii_letter c"
  by (auto simp: char_isalpha_def char_isascii_def ascii_letter_def ascii_upper_def
      ascii_lower_def Let_def)

lemma str_accepted: "(str_isalpha w \<and> str_isascii w) = ascii_word w"
  by (auto simp: str_isalpha_def str_isascii_def ascii_word_def list_all_iff char_accepted [symmetric])

lemma char_lower_letter: "ascii_letter c \<Longrightarrow> ascii_lower (char_lower c)"
  by (auto simp: ascii_letter_def ascii_upper_def ascii_lower_def char_lower_def code_point_def Let_def)

lemma str_lower_word: "ascii_word w \<Longrightarrow> lower_alpha (str_lower w)"
  by (auto simp: ascii_word_def lower_alpha_def str_lower_def list_all_iff char_lower_letter)

lemma split_empty: "dropWhile char_isspace s = [] \<Longrightarrow> split s = []"
  by (subst split.simps) (simp add: Let_def)

lemma split_first:
  "dropWhile char_isspace s \<noteq> [] \<Longrightarrow>
   split s = takeWhile (\<lambda>c. \<not> char_isspace c) (dropWhile char_isspace s)
               # split (dropWhile (\<lambda>c. \<not> char_isspace c) (dropWhile char_isspace s))"
  by (subst split.simps) (simp add: Let_def)

lemma split_Nil: "split [] = []"
  by (simp add: split_empty)

lemma split_dropWhile: "split (dropWhile char_isspace s) = split s"
proof (cases "dropWhile char_isspace s = []")
  case True
  then show ?thesis by (simp add: split_empty)
next
  case False
  have "dropWhile char_isspace (dropWhile char_isspace s) = dropWhile char_isspace s"
    by (simp add: dropWhile_idem)
  then show ?thesis
    using False split_first [of s] split_first [of "dropWhile char_isspace s"] by simp
qed

lemma takeWhile_stop: "\<not> P y \<Longrightarrow> takeWhile P (xs @ y # ys) = takeWhile P xs"
  by (induction xs) auto

lemma dropWhile_stop: "\<not> P y \<Longrightarrow> dropWhile P (xs @ y # ys) = dropWhile P xs @ y # ys"
  by (induction xs) auto

lemma split_space: "char_isspace c \<Longrightarrow> split (a @ c # b) = split a @ split b"
proof (induction a rule: split.induct)
  case (1 s)
  let ?t = "dropWhile char_isspace s"
  show ?case
  proof (cases "?t = []")
    case True
    then have all: "\<forall>x\<in>set s. char_isspace x"
      by (simp add: dropWhile_eq_Nil_conv)
    then have "dropWhile char_isspace (s @ c # b) = dropWhile char_isspace b"
      using 1(2) by simp
    then have "split (s @ c # b) = split b"
      by (metis split_dropWhile)
    moreover have "split s = []"
      using True by (rule split_empty)
    ultimately show ?thesis by simp
  next
    case False
    then have d: "dropWhile char_isspace (s @ c # b) = ?t @ c # b"
      by (metis dropWhile_append1 dropWhile_eq_Nil_conv)
    have ih: "split (dropWhile (\<lambda>c. \<not> char_isspace c) ?t @ c # b)
                = split (dropWhile (\<lambda>c. \<not> char_isspace c) ?t) @ split b"
      using 1(1) [OF refl False 1(2)] .
    have "split (s @ c # b)
            = takeWhile (\<lambda>c. \<not> char_isspace c) ?t # split (dropWhile (\<lambda>c. \<not> char_isspace c) ?t @ c # b)"
      using 1(2) split_first [of "s @ c # b"] by (simp add: d takeWhile_stop dropWhile_stop)
    moreover have "split s
            = takeWhile (\<lambda>c. \<not> char_isspace c) ?t # split (dropWhile (\<lambda>c. \<not> char_isspace c) ?t)"
      using False by (rule split_first)
    ultimately show ?thesis using ih by simp
  qed
qed

lemma split_token:
  assumes "t \<noteq> []" and "list_all (\<lambda>c. \<not> char_isspace c) t"
  shows "split t = [t]"
proof -
  have a: "\<forall>c\<in>set t. \<not> char_isspace c" using assms(2) by (simp add: list_all_iff)
  have d: "dropWhile char_isspace t = t" using a by (cases t) simp_all
  have tk: "takeWhile (\<lambda>c. \<not> char_isspace c) t = t" using a by simp
  have dr: "dropWhile (\<lambda>c. \<not> char_isspace c) t = []" using a by simp
  have "split t = takeWhile (\<lambda>c. \<not> char_isspace c) t # split (dropWhile (\<lambda>c. \<not> char_isspace c) t)"
    using assms(1) split_first [of t] by (simp add: d)
  then show ?thesis
    by (simp only: tk dr split_Nil)
qed

lemma split_tokens: "t \<in> set (split s) \<Longrightarrow> t \<noteq> [] \<and> list_all (\<lambda>c. \<not> char_isspace c) t"
proof (induction s rule: split.induct)
  case (1 s)
  let ?t = "dropWhile char_isspace s"
  show ?case
  proof (cases "?t = []")
    case True
    then have "split s = []" by (rule split_empty)
    with 1(2) show ?thesis by simp
  next
    case False
    then have "split s = takeWhile (\<lambda>c. \<not> char_isspace c) ?t # split (dropWhile (\<lambda>c. \<not> char_isspace c) ?t)"
      by (rule split_first)
    with 1(2) consider "t = takeWhile (\<lambda>c. \<not> char_isspace c) ?t"
      | "t \<in> set (split (dropWhile (\<lambda>c. \<not> char_isspace c) ?t))" by auto
    then show ?thesis
    proof cases
      case 1
      have "\<not> char_isspace (hd ?t)" using False hd_dropWhile by blast
      then have "takeWhile (\<lambda>c. \<not> char_isspace c) ?t \<noteq> []"
        using False by (cases ?t) auto
      moreover have "list_all (\<lambda>c. \<not> char_isspace c) (takeWhile (\<lambda>c. \<not> char_isspace c) ?t)"
        by (auto simp: list_all_iff dest: set_takeWhileD)
      ultimately show ?thesis using 1 by simp
    next
      case 2
      then show ?thesis using "1.IH" [OF refl False] by simp
    qed
  qed
qed

section \<open>Counting\<close>

lemma get_default_update: "get_default (AList.update k v d) k' = (if k' = k then v else get_default d k')"
  by (simp add: get_default_def update_conv')

lemma get_default_count_word:
  "get_default (count_word w d) k = get_default d k + (if ascii_word w \<and> str_lower w = k then 1 else 0)"
  by (auto simp: count_word_def increment_def get_default_update str_accepted)

lemma get_default_fold:
  "get_default (fold count_word ws d) k
     = get_default d k + int (length (filter (\<lambda>w. ascii_word w \<and> str_lower w = k) ws))"
  by (induction ws arbitrary: d) (auto simp: get_default_count_word)

lemma keys_count_word:
  "fst ` set (count_word w d) = fst ` set d \<union> (if ascii_word w then {str_lower w} else {})"
  by (auto simp: count_word_def increment_def dom_update str_accepted)

lemma keys_fold:
  "fst ` set (fold count_word ws d) = fst ` set d \<union> str_lower ` {w \<in> set ws. ascii_word w}"
  by (induction ws arbitrary: d) (auto simp: keys_count_word)



lemma lower_keys_fold:
  assumes "list_all lower_alpha (map fst d)"
  shows "list_all lower_alpha (map fst (fold count_word ws d))"
proof -
  have "lower_alpha k" if "k \<in> fst ` set (fold count_word ws d)" for k
  proof -
    from that have "k \<in> fst ` set d \<or> k \<in> str_lower ` {w \<in> set ws. ascii_word w}"
      by (simp only: keys_fold Un_iff)
    then show ?thesis
    proof
      assume "k \<in> fst ` set d"
      with assms show ?thesis by (auto simp: list_all_iff)
    next
      assume "k \<in> str_lower ` {w \<in> set ws. ascii_word w}"
      then obtain w where "ascii_word w" and "k = str_lower w" by blast
      then show ?thesis by (simp add: str_lower_word)
    qed
  qed
  then show ?thesis by (simp add: list_all_iff)
qed







section \<open>Sorting\<close>

lemma update_new: "k \<notin> fst ` set d \<Longrightarrow> AList.update k v d = d @ [(k, v)]"
  by (induction d) auto

lemma fold_update_distinct:
  "distinct (map fst (acc @ items)) \<Longrightarrow>
   fold (\<lambda>item d. AList.update (fst item) (snd item) d) items acc = acc @ items"
proof (induction items arbitrary: acc)
  case Nil
  then show ?case by simp
next
  case (Cons item items)
  have "fst item \<notin> fst ` set acc" using Cons.prems by auto
  then have "AList.update (fst item) (snd item) acc = acc @ [item]"
    by (simp add: update_new)
  moreover have "distinct (map fst ((acc @ [item]) @ items))" using Cons.prems by simp
  ultimately show ?case using Cons.IH [of "acc @ [item]"] by simp
qed

lemma dict_distinct: "distinct (map fst items) \<Longrightarrow> dict items = items"
  using fold_update_distinct [of "[]" items] by (simp add: dict_def)

lemma distinct_keys_sorted_desc:
  "distinct (map fst items) \<Longrightarrow> distinct (map fst (sorted_desc items))"
proof -
  assume d: "distinct (map fst items)"
  have "mset (map fst (sorted_desc items)) = mset (map fst items)"
    by (simp add: sorted_desc_def)
  then show ?thesis using d by (metis mset_eq_imp_distinct_iff)
qed

lemma sort_word_frequency_distinct:
  "distinct (map fst (word_frequency st)) \<Longrightarrow>
   word_frequency (sort_word_frequency st) = sorted_desc (word_frequency st)"
  by (simp add: sort_word_frequency_def dict_distinct distinct_keys_sorted_desc)

lemma sorted_desc_descending: "sorted_wrt (\<lambda>a b. snd b \<le> snd a) (sorted_desc items)"
proof -
  have "sorted (map (\<lambda>item. - snd item) (sorted_desc items))"
    unfolding sorted_desc_def by (rule sorted_sort_key)
  then show ?thesis
    by (simp add: sorted_map sorted_wrt_iff_nth_less)
qed

section \<open>Writing and reading records\<close>

















section \<open>The base URL\<close>

text \<open>
  The base URL that the constructor derives from a seed is a string that \<open>urlparse\<close> accepts.
  Its network location is that of the seed when the seed has a scheme, and empty
  otherwise.
\<close>

lemma scheme_char_ascii: "scheme_char c \<Longrightarrow> code_point c < 128 \<and> 32 < code_point c"
  by (auto simp: scheme_char_def ascii_letter_def ascii_upper_def ascii_lower_def ascii_digit_def
      code_point_def)

lemma char_lower_scheme:
  assumes "scheme_char c"
  shows "scheme_char (char_lower c)" and "char_lower (char_lower c) = char_lower c"
    and "ascii_letter c \<Longrightarrow> ascii_letter (char_lower c)"
  using assms
  by (auto simp: scheme_char_def ascii_letter_def ascii_upper_def ascii_lower_def ascii_digit_def
      char_lower_def code_point_def Let_def)

lemma scheme_char_plain:
  "scheme_char c \<Longrightarrow>
   c \<noteq> CHR '':'' \<and> c \<noteq> CHR 0x09 \<and> c \<noteq> CHR 0x0A \<and> c \<noteq> CHR 0x0D \<and> \<not> code_point c \<le> 32"
  by (auto simp: scheme_char_def ascii_letter_def ascii_upper_def ascii_lower_def ascii_digit_def
      code_point_def)

lemma split_scheme_result:
  assumes "split_scheme url = (sch, url1)"
  shows "set url1 \<subseteq> set url"
    and "sch \<noteq> [] \<Longrightarrow> ascii_letter (hd sch) \<and> list_all scheme_char sch \<and> map char_lower sch = sch"
proof -
  show "set url1 \<subseteq> set url"
    using assms by (auto simp: split_scheme_def Let_def split: if_splits dest: in_set_dropD)
  assume ne: "sch \<noteq> []"
  let ?s = "takeWhile (\<lambda>c. c \<noteq> CHR '':'') url"
  from assms ne have s: "?s \<noteq> []" "ascii_letter (hd ?s)" "list_all scheme_char ?s"
    and sch: "sch = map char_lower ?s"
    by (auto simp: split_scheme_def Let_def split: if_splits)
  have "ascii_letter (hd sch)"
    using s sch by (cases ?s) (auto simp: char_lower_scheme)
  moreover have "list_all scheme_char sch"
    using s(3) sch by (auto simp: list_all_iff char_lower_scheme)
  moreover have "map char_lower sch = sch"
    using s(3) sch by (auto simp: list_all_iff char_lower_scheme)
  ultimately show "ascii_letter (hd sch) \<and> list_all scheme_char sch \<and> map char_lower sch = sch"
    by simp
qed

lemma split_netloc_result:
  assumes "split_netloc url1 = (nl, url2)"
  shows "set nl \<subseteq> set url1" and "list_all (\<lambda>c. \<not> netloc_delim c) nl"
  using assms
  by (auto simp: split_netloc_def list_all_iff split: if_splits dest: set_takeWhileD in_set_dropD)

lemma remove_unsafe_safe:
  "c \<in> set (remove_unsafe url) \<Longrightarrow> c \<noteq> CHR 0x09 \<and> c \<noteq> CHR 0x0A \<and> c \<noteq> CHR 0x0D"
  by (simp add: remove_unsafe_def)

lemma remove_unsafe_id:
  "\<forall>c\<in>set url. c \<noteq> CHR 0x09 \<and> c \<noteq> CHR 0x0A \<and> c \<noteq> CHR 0x0D \<Longrightarrow> remove_unsafe url = url"
  by (simp add: remove_unsafe_def)

lemma urlparse_with_scheme:
  assumes "sch \<noteq> []" and "ascii_letter (hd sch)" and "list_all scheme_char sch"
    and "map char_lower sch = sch" and "list_all (\<lambda>c. \<not> netloc_delim c) nl"
    and "\<forall>c\<in>set nl. c \<noteq> CHR 0x09 \<and> c \<noteq> CHR 0x0A \<and> c \<noteq> CHR 0x0D"
    and "\<not> bad_brackets nl"
  shows "urlparse (sch @ CHR '':'' # CHR ''/'' # CHR ''/'' # nl)
           = Inr \<lparr>scheme = sch, netloc = nl, path = []\<rparr>"
proof -
  let ?base = "sch @ CHR '':'' # CHR ''/'' # CHR ''/'' # nl"
  have sc: "\<forall>c\<in>set sch. scheme_char c" using assms(3) by (simp add: list_all_iff)
  have "\<not> code_point (hd sch) \<le> 32"
    using assms(1) sc scheme_char_plain [of "hd sch"] by simp
  then have l: "lstrip_c0 ?base = ?base"
    using assms(1) by (cases sch) (simp_all add: lstrip_c0_def)
  have "c \<noteq> CHR 0x09 \<and> c \<noteq> CHR 0x0A \<and> c \<noteq> CHR 0x0D" if "c \<in> set ?base" for c
  proof -
    from that consider "c \<in> set sch" | "c \<in> set [CHR '':'', CHR ''/'']" | "c \<in> set nl" by auto
    then show ?thesis
    proof cases
      case 1
      with sc have "scheme_char c" by blast
      then show ?thesis by (simp add: scheme_char_plain)
    next
      case 2
      then show ?thesis by auto
    next
      case 3
      with assms(6) show ?thesis by blast
    qed
  qed
  then have r: "remove_unsafe ?base = ?base" by (intro remove_unsafe_id ballI)
  have "\<forall>c\<in>set sch. c \<noteq> CHR '':''" using sc scheme_char_plain by blast
  then have t: "takeWhile (\<lambda>c. c \<noteq> CHR '':'') ?base = sch"
    by (simp add: takeWhile_append2)
  have s: "split_scheme ?base = (sch, CHR ''/'' # CHR ''/'' # nl)"
    using assms(1,2,3,4) by (simp add: split_scheme_def t Let_def)
  have d: "\<forall>c\<in>set nl. \<not> netloc_delim c" using assms(5) by (simp add: list_all_iff)
  have n: "split_netloc (CHR ''/'' # CHR ''/'' # nl) = (nl, [])"
    using d by (simp add: split_netloc_def)
  show ?thesis
    using assms(7) by (simp only: urlparse_def l r s n Let_def prod.case) simp
qed

lemma urlparse_without_scheme:
  assumes "\<forall>c\<in>set nl. c \<noteq> CHR 0x09 \<and> c \<noteq> CHR 0x0A \<and> c \<noteq> CHR 0x0D"
  shows "\<exists>b. urlparse (CHR '':'' # CHR ''/'' # CHR ''/'' # nl) = Inr b \<and> netloc b = []"
proof -
  let ?base = "CHR '':'' # CHR ''/'' # CHR ''/'' # nl"
  have l: "lstrip_c0 ?base = ?base" by (simp add: lstrip_c0_def code_point_def)
  have r: "remove_unsafe ?base = ?base" using assms by (intro remove_unsafe_id) auto
  have s: "split_scheme ?base = ([], ?base)" by (simp add: split_scheme_def)
  have n: "split_netloc ?base = ([], ?base)" by (simp add: split_netloc_def)
  have b: "\<not> bad_brackets []" by (simp add: bad_brackets_def)
  show ?thesis
    using b by (simp only: urlparse_def l r s n Let_def prod.case) simp
qed

lemma base_url_parses:
  assumes "urlparse first = Inr p"
  shows "\<exists>b. urlparse (scheme p @ ''://'' @ netloc p) = Inr b
             \<and> netloc b = (if scheme p = [] then [] else netloc p)"
proof -
  let ?url = "remove_unsafe (lstrip_c0 first)"
  obtain sch url1 where s: "split_scheme ?url = (sch, url1)" by (cases "split_scheme ?url")
  obtain nl url2 where n: "split_netloc url1 = (nl, url2)" by (cases "split_netloc url1")
  from assms s n have nb: "\<not> bad_brackets nl" and p: "scheme p = sch" "netloc p = nl"
    by (auto simp: urlparse_def Let_def split: if_splits)
  have "set nl \<subseteq> set ?url"
    using split_netloc_result(1) [OF n] split_scheme_result(1) [OF s] by blast
  then have safe: "\<forall>c\<in>set nl. c \<noteq> CHR 0x09 \<and> c \<noteq> CHR 0x0A \<and> c \<noteq> CHR 0x0D"
    using remove_unsafe_safe by blast
  show ?thesis
  proof (cases "sch = []")
    case True
    with urlparse_without_scheme [OF safe] p show ?thesis by simp
  next
    case False
    from split_scheme_result(2) [OF s False] have "ascii_letter (hd sch)"
      "list_all scheme_char sch" "map char_lower sch = sch" by simp_all
    from urlparse_with_scheme [OF False this split_netloc_result(2) [OF n] safe nb] False p
    show ?thesis by simp
  qed
qed

section \<open>The steps of the crawl\<close>

text \<open>
  What a call of the classifier, a pass over the links of a page and a pass through the
  loop body do to the state when they return.
\<close>

lemma parse_url_Inr:
  "parse_url st url = Inr st' \<Longrightarrow>
   st' = (if page_like url \<and> url \<notin> set (to_parse_links st) \<and> url \<notin> set (parsed_links st)
             \<and> same_netloc (base_url st) url
          then st\<lparr>to_parse_links := to_parse_links st @ [url]\<rparr> else st)"
  by (auto simp: parse_url_def page_like_def same_netloc_def split: sum.splits if_splits)

lemma parse_url_admits:
  assumes "page_like url" and "same_netloc (base_url st) url" and "url \<notin> set (parsed_links st)"
  shows "\<exists>st'. parse_url st url = Inr st' \<and> url \<in> set (to_parse_links st')"
  using assms
  by (auto simp: parse_url_def page_like_def same_netloc_def split: sum.splits)

lemma find_links_Inr:
  "find_links_and_add_to_parse st urls = Inr st' \<Longrightarrow>
   \<exists>new. st' = st\<lparr>to_parse_links := to_parse_links st @ new\<rparr>
       \<and> distinct new \<and> set new \<subseteq> set urls
       \<and> set new \<inter> set (to_parse_links st) = {}
       \<and> set new \<inter> set (parsed_links st) = {}
       \<and> (\<forall>u\<in>set new. page_like u \<and> same_netloc (base_url st) u)"
proof (induction urls arbitrary: st)
  case Nil
  then have "st' = st\<lparr>to_parse_links := to_parse_links st @ []\<rparr>" by simp
  then show ?case by (intro exI [of _ "[]"]) simp
next
  case (Cons url urls)
  from Cons.prems obtain st1 where p: "parse_url st url = Inr st1"
    and f: "find_links_and_add_to_parse st1 urls = Inr st'"
    by (auto split: sum.splits)
  from Cons.IH [OF f] obtain new where new: "st' = st1\<lparr>to_parse_links := to_parse_links st1 @ new\<rparr>"
    "distinct new" "set new \<subseteq> set urls" "set new \<inter> set (to_parse_links st1) = {}"
    "set new \<inter> set (parsed_links st1) = {}"
    "\<forall>u\<in>set new. page_like u \<and> same_netloc (base_url st1) u"
    by blast
  show ?case
  proof (cases "st1 = st")
    case True
    with new show ?thesis by (intro exI [of _ new]) auto
  next
    case False
    with parse_url_Inr [OF p] have adm: "page_like url" "url \<notin> set (to_parse_links st)"
      "url \<notin> set (parsed_links st)" "same_netloc (base_url st) url"
      and st1: "st1 = st\<lparr>to_parse_links := to_parse_links st @ [url]\<rparr>"
      by (auto split: if_splits)
    with new show ?thesis by (intro exI [of _ "url # new"]) auto
  qed
qed


lemma find_links_rediscovers:
  assumes "find_links_and_add_to_parse st urls = Inr st'"
    and "url \<in> set urls \<or> url \<in> set (to_parse_links st)"
    and "page_like url" and "same_netloc (base_url st) url" and "url \<notin> set (parsed_links st)"
  shows "url \<in> set (to_parse_links st')"
  using assms
proof (induction urls arbitrary: st)
  case Nil
  then show ?case by simp
next
  case (Cons u urls)
  from Cons.prems(1) obtain st1 where p: "parse_url st u = Inr st1"
    and f: "find_links_and_add_to_parse st1 urls = Inr st'"
    by (auto split: sum.splits)
  have k: "parsed_links st1 = parsed_links st" "base_url st1 = base_url st"
    "set (to_parse_links st) \<subseteq> set (to_parse_links st1)"
    using parse_url_Inr [OF p] by (auto split: if_splits)
  have "url \<in> set urls \<or> url \<in> set (to_parse_links st1)"
  proof (cases "url = u")
    case True
    from parse_url_admits [OF Cons.prems(3,4,5)] p True show ?thesis by auto
  next
    case False
    with Cons.prems(2) k(3) show ?thesis by auto
  qed
  then show ?case
    using Cons.IH [OF f] Cons.prems(3,4,5) k by simp
qed

lemma loop_body_Inr:
  assumes "loop_body r st = Inr st'" and "to_parse_links st = link # rest"
  shows "(fetch_page_content r = [] \<and> st' = st\<lparr>to_parse_links := rest, current_link := Some link\<rparr>)
         \<or> (fetch_page_content r \<noteq> [] \<and>
            (\<exists>new. st' = st\<lparr>to_parse_links := rest @ new, current_link := Some link,
                            word_frequency := fold count_word (split (fetch_page_content r)) (word_frequency st),
                            parsed_links := parsed_links st @ [link]\<rparr>
                 \<and> distinct new \<and> set new \<subseteq> set (absolute_urls r) \<and> set new \<inter> set rest = {}
                 \<and> set new \<inter> set (parsed_links st) = {}
                 \<and> (\<forall>u\<in>set new. page_like u \<and> same_netloc (base_url st) u)))"
proof (cases "fetch_page_content r = []")
  case True
  with assms show ?thesis by (simp add: loop_body_def)
next
  case False
  let ?st2 = "collect_words_from_text (st\<lparr>to_parse_links := rest, current_link := Some link\<rparr>)
                (fetch_page_content r)"
  from assms False obtain st3 where f: "find_links_and_add_to_parse ?st2 (absolute_urls r) = Inr st3"
    and st': "st' = st3\<lparr>parsed_links := parsed_links st3 @ [link]\<rparr>"
    by (auto simp: loop_body_def Let_def split: sum.splits)
  from find_links_Inr [OF f] obtain new where new:
    "st3 = ?st2\<lparr>to_parse_links := to_parse_links ?st2 @ new\<rparr>"
    "distinct new" "set new \<subseteq> set (absolute_urls r)" "set new \<inter> set (to_parse_links ?st2) = {}"
    "set new \<inter> set (parsed_links ?st2) = {}"
    "\<forall>u\<in>set new. page_like u \<and> same_netloc (base_url ?st2) u"
    by blast
  have "st' = st\<lparr>to_parse_links := rest @ new, current_link := Some link,
                 word_frequency := fold count_word (split (fetch_page_content r)) (word_frequency st),
                 parsed_links := parsed_links st @ [link]\<rparr>"
    using st' new(1) by (simp add: collect_words_from_text_def)
  moreover have "set new \<inter> set rest = {}" "set new \<inter> set (parsed_links st) = {}"
    "\<forall>u\<in>set new. page_like u \<and> same_netloc (base_url st) u"
    using new(4,5,6) by (simp_all add: collect_words_from_text_def)
  ultimately show ?thesis using False new(2,3) by blast
qed

lemma loop_body_queue:
  assumes "loop_body r st = Inr st'"
  shows "\<exists>new. to_parse_links st' = tl (to_parse_links st) @ new"
proof (cases "to_parse_links st")
  case Nil
  with assms show ?thesis by (simp add: loop_body_def)
next
  case (Cons link rest)
  from loop_body_Inr [OF assms Cons] Cons show ?thesis by auto
qed

lemma loop_body_rediscovers:
  assumes "loop_body (Response text urls) s = Inr s'" and "text \<noteq> []" and "url \<in> set urls"
    and "page_like url" and "same_netloc (base_url s) url" and "url \<notin> set (parsed_links s)"
  shows "url \<in> set (to_parse_links s')"
proof (cases "to_parse_links s")
  case Nil
  with assms(1) show ?thesis by (simp add: loop_body_def)
next
  case (Cons link rest)
  let ?s2 = "collect_words_from_text (s\<lparr>to_parse_links := rest, current_link := Some link\<rparr>) text"
  from assms(1,2) Cons obtain s3 where f: "find_links_and_add_to_parse ?s2 urls = Inr s3"
    and s': "s' = s3\<lparr>parsed_links := parsed_links s3 @ [link]\<rparr>"
    by (auto simp: loop_body_def fetch_page_content_def absolute_urls_def split: sum.splits)
  have "url \<in> set (to_parse_links s3)"
    using find_links_rediscovers [OF f] assms(3,4,5,6)
    by (simp add: collect_words_from_text_def)
  with s' show ?thesis by simp
qed

lemma frontier_ok_init:
  "distinct seeds \<Longrightarrow> init seeds out = Inr st \<Longrightarrow> frontier_ok seeds st"
  by (auto simp: init_def frontier_ok_def list_all_iff split: list.splits sum.splits)

lemma frontier_ok_parse_url:
  "frontier_ok seeds st \<Longrightarrow> parse_url st url = Inr st' \<Longrightarrow> frontier_ok seeds st'"
  by (drule parse_url_Inr) (auto simp: frontier_ok_def list_all_iff split: if_splits)

lemma frontier_ok_loop_body:
  assumes "frontier_ok seeds st" and "loop_body r st = Inr st'"
  shows "frontier_ok seeds st'"
proof (cases "to_parse_links st")
  case Nil
  with assms(2) show ?thesis by (simp add: loop_body_def)
next
  case (Cons link rest)
  from loop_body_Inr [OF assms(2) Cons] assms(1) Cons show ?thesis
    by (auto simp: frontier_ok_def list_all_iff)
qed

lemma frontier_ok_run:
  "frontier_ok seeds st \<Longrightarrow> s \<in> set (run rs st) \<Longrightarrow> frontier_ok seeds s"
proof (induction rs arbitrary: st)
  case Nil
  then show ?case by simp
next
  case (Cons r rs)
  show ?case
  proof (cases "s = st")
    case True
    with Cons.prems show ?thesis by simp
  next
    case False
    with Cons.prems(2) obtain st' where b: "loop_body r st = Inr st'" and s: "s \<in> set (run rs st')"
      by (cases "loop_body r st") (auto split: if_splits)
    from Cons.IH [OF frontier_ok_loop_body [OF Cons.prems(1) b] s] show ?thesis .
  qed
qed

lemma lower_keys_loop_body:
  assumes "list_all lower_alpha (map fst (word_frequency st))" and "loop_body r st = Inr st'"
  shows "list_all lower_alpha (map fst (word_frequency st'))"
proof (cases "to_parse_links st")
  case Nil
  with assms(2) show ?thesis by (simp add: loop_body_def)
next
  case (Cons link rest)
  from loop_body_Inr [OF assms(2) Cons] assms(1)
    lower_keys_fold [OF assms(1), of "split (fetch_page_content r)"]
  show ?thesis by auto
qed

lemma lower_keys_run:
  "list_all lower_alpha (map fst (word_frequency st)) \<Longrightarrow> s \<in> set (run rs st) \<Longrightarrow>
   list_all lower_alpha (map fst (word_frequency s))"
proof (induction rs arbitrary: st)
  case Nil
  then show ?case by simp
next
  case (Cons r rs)
  show ?case
  proof (cases "s = st")
    case True
    with Cons.prems show ?thesis by simp
  next
    case False
    with Cons.prems(2) obtain st' where b: "loop_body r st = Inr st'" and s: "s \<in> set (run rs st')"
      by (cases "loop_body r st") (auto split: if_splits)
    from Cons.IH [OF lower_keys_loop_body [OF Cons.prems(1) b] s] show ?thesis .
  qed
qed

lemma init_table: "init seeds out = Inr st \<Longrightarrow> word_frequency st = []"
  by (auto simp: init_def split: list.splits sum.splits)

lemma fetched_fifo:
  "prefix (fetched rs st) (to_parse_links st) \<or> prefix (to_parse_links st) (fetched rs st)"
proof (induction rs arbitrary: st)
  case Nil
  then show ?case by simp
next
  case (Cons r rs)
  show ?case
  proof (cases "to_parse_links st")
    case Nil
    then show ?thesis by simp
  next
    case (Cons link rest)
    note q = Cons
    show ?thesis
    proof (cases "loop_body r st")
      case (Inl e)
      with q show ?thesis by simp
    next
      case (Inr st')
      from loop_body_queue [OF Inr] q obtain new where new: "to_parse_links st' = rest @ new"
        by auto
      from Cons.IH [of st'] have "prefix (fetched rs st') rest \<or> prefix rest (fetched rs st')"
        unfolding new
        by (metis prefix_append prefix_order.dual_order.trans prefix_same_cases prefixI)
      with q Inr show ?thesis by simp
    qed
  qed
qed

lemma init_base_url_parses:
  assumes "init seeds out = Inr st"
  shows "\<exists>b. urlparse (base_url st) = Inr b"
proof -
  from assms obtain first others p where "seeds = first # others" and p: "urlparse first = Inr p"
    and "base_url st = scheme p @ ''://'' @ netloc p"
    by (auto simp: init_def extract_base_url_def split: list.splits sum.splits)
  with base_url_parses [OF p] show ?thesis by auto
qed

lemma loop_body_base_url: "loop_body r st = Inr st' \<Longrightarrow> base_url st' = base_url st"
proof (cases "to_parse_links st")
  case Nil
  assume "loop_body r st = Inr st'"
  with Nil show ?thesis by (simp add: loop_body_def)
next
  case (Cons link rest)
  assume "loop_body r st = Inr st'"
  from loop_body_Inr [OF this Cons] show ?thesis by auto
qed

lemma run_base_url: "s \<in> set (run rs st) \<Longrightarrow> base_url s = base_url st"
proof (induction rs arbitrary: st)
  case Nil
  then show ?case by simp
next
  case (Cons r rs)
  show ?case
  proof (cases "s = st")
    case True
    then show ?thesis by simp
  next
    case False
    with Cons.prems obtain st' where b: "loop_body r st = Inr st'" and s: "s \<in> set (run rs st')"
      by (cases "loop_body r st") (auto split: if_splits)
    from Cons.IH [OF s] loop_body_base_url [OF b] show ?thesis by simp
  qed
qed

section \<open>Claim C1: the URL classifier\<close>




section \<open>Claim C2: the invariant of the frontier\<close>

text \<open>
  The claim as it is written fails in the initial state: the constructor takes the seeds
  as they are, and with the seeds \<open>https://go.dev\<close> and \<open>https://example.com\<close> the
  frontier holds a URL whose scheme and host are not those of the base.
\<close>

theorem seeds_not_classified:
  "init [''https://go.dev'', ''https://example.com''] ''go_english_words.txt''
     = Inr (go_dev\<lparr>to_parse_links := [''https://go.dev'', ''https://example.com'']\<rparr>)
   \<and> \<not> spec_frontier_invariant (go_dev\<lparr>to_parse_links := [''https://go.dev'', ''https://example.com'']\<rparr>)"
proof -
  have "\<not> spec_frontier_invariant (go_dev\<lparr>to_parse_links := [''https://go.dev'', ''https://example.com'']\<rparr>)"
    by code_simp
  with init_two_seeds show ?thesis by (rule conjI)
qed

text \<open>
  Claim C2, as the code has it. When the seeds are distinct, the frontier of the initial
  state holds no URL twice and every URL of it is a seed or has the network location of
  the base URL; every call of the classifier and every pass through the loop body keeps
  this, and so it holds in every state of a run.
\<close>

theorem frontier_ok_preserved:
  "(distinct seeds \<and> init seeds out = Inr st0 \<longrightarrow> frontier_ok seeds st0)
   \<and> (frontier_ok seeds st \<and> parse_url st url = Inr st1 \<longrightarrow> frontier_ok seeds st1)
   \<and> (frontier_ok seeds st \<and> loop_body r st = Inr st2 \<longrightarrow> frontier_ok seeds st2)
   \<and> (distinct seeds \<and> init seeds out = Inr st0 \<and> s \<in> set (run rs st0) \<longrightarrow> frontier_ok seeds s)"
  using frontier_ok_init [of seeds out st0] frontier_ok_parse_url [of seeds st url st1]
    frontier_ok_loop_body [of seeds st r st2] frontier_ok_run [of seeds st0 s rs]
  by blast

theorem frontier_ok_preserved_witness:
  "frontier_ok [''https://go.dev''] go_dev
   \<and> frontier_ok [''https://go.dev''] (go_dev\<lparr>to_parse_links := [''https://go.dev'', ''https://go.dev/doc'']\<rparr>)
   \<and> frontier_ok [''https://go.dev'']
        (go_dev\<lparr>to_parse_links := [''https://go.dev/doc''], parsed_links := [''https://go.dev''],
                word_frequency := [(''go'', 2)], current_link := Some ''https://go.dev''\<rparr>)
   \<and> frontier_ok [''https://go.dev'']
        (go_dev\<lparr>to_parse_links := [], parsed_links := [''https://go.dev''],
                word_frequency := [(''go'', 2)], current_link := Some ''https://go.dev/doc''\<rparr>)"
proof -
  have d: "distinct [''https://go.dev'']" by simp
  have m: "go_dev\<lparr>to_parse_links := [], parsed_links := [''https://go.dev''],
                word_frequency := [(''go'', 2)], current_link := Some ''https://go.dev/doc''\<rparr>
             \<in> set (run [Response ''Go go'' [''https://go.dev/doc''], RequestException] go_dev)"
    unfolding run_example by simp
  note w = frontier_ok_preserved [of "[''https://go.dev'']" "''go_english_words.txt''" go_dev go_dev
      "''https://go.dev/doc''" "go_dev\<lparr>to_parse_links := [''https://go.dev'', ''https://go.dev/doc'']\<rparr>"
      "Response ''Go go'' [''https://go.dev/doc'']"
      "go_dev\<lparr>to_parse_links := [''https://go.dev/doc''], parsed_links := [''https://go.dev''],
                word_frequency := [(''go'', 2)], current_link := Some ''https://go.dev''\<rparr>"
      "go_dev\<lparr>to_parse_links := [], parsed_links := [''https://go.dev''],
                word_frequency := [(''go'', 2)], current_link := Some ''https://go.dev/doc''\<rparr>"
      "[Response ''Go go'' [''https://go.dev/doc''], RequestException]"]
  from w d init_go_dev parse_url_doc loop_body_page m show ?thesis by blast
qed

section \<open>Claim C3: no URL is processed twice\<close>

text \<open>
  Claim C3 fails on the code. While a page is processed its URL is neither in
  \<open>to_parse_links\<close>, from which it was popped, nor yet in \<open>parsed_links\<close>, so a link of
  the page to itself is admitted again. With the seed \<open>https://go.dev\<close> and a page that
  links to \<open>https://go.dev\<close>, the page is fetched and processed twice: the URL is in
  \<open>parsed_links\<close> twice and the word of the page is counted twice.
\<close>

theorem self_link_parsed_twice:
  "parse_all_links [Response ''go'' [''https://go.dev''], Response ''go'' [''https://go.dev'']] go_dev
   = Some (Inr (go_dev\<lparr>to_parse_links := [], parsed_links := [''https://go.dev'', ''https://go.dev''],
                  word_frequency := [(''go'', 2)], current_link := Some ''https://go.dev''\<rparr>))"
  by code_simp

section \<open>Claim C4: a page that was fetched\<close>




section \<open>Claim C5: a fetch that failed\<close>

text \<open>
  The claim as it is written fails for a seed that the classifier does not admit: the
  seeds enter the frontier as they are. With the seeds \<open>https://go.dev/index.html\<close> and
  \<open>https://go.dev\<close>, the fetch of the first fails, the page of the second links to the
  first, and the classifier discards it for the dot in its path: the loop ends and the
  URL was not put into the frontier again.
\<close>

theorem failed_seed_not_requeued:
  "init [''https://go.dev/index.html'', ''https://go.dev''] ''go_english_words.txt''
     = Inr (go_dev\<lparr>to_parse_links := [''https://go.dev/index.html'', ''https://go.dev'']\<rparr>)
   \<and> loop_body RequestException
         (go_dev\<lparr>to_parse_links := [''https://go.dev/index.html'', ''https://go.dev'']\<rparr>)
     = Inr (go_dev\<lparr>to_parse_links := [''https://go.dev''],
                  current_link := Some ''https://go.dev/index.html''\<rparr>)
   \<and> loop_body (Response ''go'' [''https://go.dev/index.html''])
         (go_dev\<lparr>to_parse_links := [''https://go.dev''],
                 current_link := Some ''https://go.dev/index.html''\<rparr>)
     = Inr (go_dev\<lparr>to_parse_links := [], parsed_links := [''https://go.dev''],
                  word_frequency := [(''go'', 1)], current_link := Some ''https://go.dev''\<rparr>)"
  by code_simp

text \<open>
  Claim C5, as the code has it. When the fetch of the URL at the front of the frontier
  fails, the loop body raises no error and changes nothing but the frontier, which loses
  this URL, and the current link: nothing is counted, no link is added, the URL is not
  marked as parsed and not requested again, and the loop goes on with the rest of the
  frontier. The failure leaves no trace, and re-admission is the work of the classifier:
  a URL that passes the two checks that read the URL alone, as every URL does that the
  classifier admitted before, is admitted again when the classifier meets it, right
  after the failure, and in every later state in which the URL is not marked as parsed,
  where a fetched page that links to it leaves it in the frontier.
\<close>

theorem failed_fetch_dropped:
  assumes "to_parse_links st = link # rest" and "fetch_page_content r = []"
  shows "loop_body r st = Inr (st\<lparr>to_parse_links := rest, current_link := Some link\<rparr>)
         \<and> parse_all_links (r # rs) st
             = parse_all_links rs (st\<lparr>to_parse_links := rest, current_link := Some link\<rparr>)
         \<and> (page_like link \<and> same_netloc (base_url st) link \<and> link \<notin> set rest
              \<and> link \<notin> set (parsed_links st) \<longrightarrow>
            parse_url (st\<lparr>to_parse_links := rest, current_link := Some link\<rparr>) link
              = Inr (st\<lparr>to_parse_links := rest @ [link], current_link := Some link\<rparr>))
         \<and> (page_like link \<and> same_netloc (base_url s) link \<and> link \<notin> set (parsed_links s)
              \<and> text \<noteq> [] \<and> link \<in> set urls \<and> loop_body (Response text urls) s = Inr s' \<longrightarrow>
            link \<in> set (to_parse_links s'))"
proof (intro conjI impI)
  show b: "loop_body r st = Inr (st\<lparr>to_parse_links := rest, current_link := Some link\<rparr>)"
    using assms by (simp add: loop_body_def)
  show "parse_all_links (r # rs) st
          = parse_all_links rs (st\<lparr>to_parse_links := rest, current_link := Some link\<rparr>)"
    using assms(1) b by simp
  show "parse_url (st\<lparr>to_parse_links := rest, current_link := Some link\<rparr>) link
          = Inr (st\<lparr>to_parse_links := rest @ [link], current_link := Some link\<rparr>)"
    if "page_like link \<and> same_netloc (base_url st) link \<and> link \<notin> set rest
          \<and> link \<notin> set (parsed_links st)"
    using that by (auto simp: parse_url_def page_like_def same_netloc_def split: sum.splits)
  show "link \<in> set (to_parse_links s')"
    if "page_like link \<and> same_netloc (base_url s) link \<and> link \<notin> set (parsed_links s)
          \<and> text \<noteq> [] \<and> link \<in> set urls \<and> loop_body (Response text urls) s = Inr s'"
    using that loop_body_rediscovers [of "text" urls s s' link] by blast
qed

theorem failed_fetch_dropped_witness:
  "loop_body RequestException
     (go_dev\<lparr>to_parse_links := [''https://go.dev/doc'', ''https://go.dev/blog''],
             parsed_links := [''https://go.dev'']\<rparr>)
     = Inr (go_dev\<lparr>to_parse_links := [''https://go.dev/blog''], parsed_links := [''https://go.dev''],
                  current_link := Some ''https://go.dev/doc''\<rparr>)
   \<and> parse_url (go_dev\<lparr>to_parse_links := [''https://go.dev/blog''], parsed_links := [''https://go.dev''],
                  current_link := Some ''https://go.dev/doc''\<rparr>) ''https://go.dev/doc''
     = Inr (go_dev\<lparr>to_parse_links := [''https://go.dev/blog'', ''https://go.dev/doc''],
                  parsed_links := [''https://go.dev''], current_link := Some ''https://go.dev/doc''\<rparr>)
   \<and> ''https://go.dev/doc'' \<in> set (to_parse_links
         (go_dev\<lparr>to_parse_links := [''https://go.dev/doc''],
                 parsed_links := [''https://go.dev'', ''https://go.dev/blog''],
                 word_frequency := [(''go'', 1)], current_link := Some ''https://go.dev/blog''\<rparr>))"
proof -
  let ?st = "go_dev\<lparr>to_parse_links := [''https://go.dev/doc'', ''https://go.dev/blog''],
             parsed_links := [''https://go.dev'']\<rparr>"
  let ?s = "go_dev\<lparr>to_parse_links := [''https://go.dev/blog''], parsed_links := [''https://go.dev''],
             current_link := Some ''https://go.dev/doc''\<rparr>"
  let ?s' = "go_dev\<lparr>to_parse_links := [''https://go.dev/doc''],
                 parsed_links := [''https://go.dev'', ''https://go.dev/blog''],
                 word_frequency := [(''go'', 1)], current_link := Some ''https://go.dev/blog''\<rparr>"
  have q: "to_parse_links ?st = ''https://go.dev/doc'' # [''https://go.dev/blog'']" by simp
  have f: "fetch_page_content RequestException = []" by (simp add: fetch_page_content_def)
  have h1: "page_like ''https://go.dev/doc'' \<and> same_netloc (base_url ?st) ''https://go.dev/doc''
      \<and> ''https://go.dev/doc'' \<notin> set [''https://go.dev/blog'']
      \<and> ''https://go.dev/doc'' \<notin> set (parsed_links ?st)"
    using page_like_doc same_netloc_doc by (simp add: go_dev_def)
  have h2: "page_like ''https://go.dev/doc'' \<and> same_netloc (base_url ?s) ''https://go.dev/doc''
      \<and> ''https://go.dev/doc'' \<notin> set (parsed_links ?s)
      \<and> ''Go'' \<noteq> [] \<and> ''https://go.dev/doc'' \<in> set [''https://go.dev/doc'']
      \<and> loop_body (Response ''Go'' [''https://go.dev/doc'']) ?s = Inr ?s'"
    using page_like_doc same_netloc_doc loop_body_blog by (simp add: go_dev_def)
  note w = failed_fetch_dropped [OF q f, of "[]" ?s "''Go''" "[''https://go.dev/doc'']" ?s']
  from w h1 h2 show ?thesis by (simp add: go_dev_def)
qed

section \<open>Claim C6: the word extractor\<close>

text \<open>
  Claim C6. \<open>split\<close> cuts the text at its whitespace: the empty text has no token, a
  whitespace character separates the tokens before it from the tokens behind it, and a
  non-empty text without whitespace is one token. The test of the code accepts a token if
  and only if it is a non-empty string of ASCII letters. After a text is collected, the
  count of a key is its count before plus the number of accepted tokens of the text whose
  lower-case form is the key, and the keys are the keys before and the lower-case forms of
  the accepted tokens. Hence keys of lower-case ASCII letters stay such keys, and in every
  state of a run from a constructed crawler all keys are such keys.
\<close>

theorem collect_words_counts:
  "split [] = []
   \<and> (char_isspace c \<longrightarrow> split (a @ c # b) = split a @ split b)
   \<and> (t \<noteq> [] \<and> list_all (\<lambda>c. \<not> char_isspace c) t \<longrightarrow> split t = [t])
   \<and> (str_isalpha token \<and> str_isascii token) = ascii_word token
   \<and> get_default (word_frequency (collect_words_from_text st text)) k
       = get_default (word_frequency st) k
         + int (length (filter (\<lambda>token. ascii_word token \<and> str_lower token = k) (split text)))
   \<and> fst ` set (word_frequency (collect_words_from_text st text))
       = fst ` set (word_frequency st) \<union> str_lower ` {token \<in> set (split text). ascii_word token}
   \<and> (list_all lower_alpha (map fst (word_frequency st)) \<longrightarrow>
        list_all lower_alpha (map fst (word_frequency (collect_words_from_text st text))))
   \<and> (init seeds out = Inr st0 \<and> s \<in> set (run rs st0) \<longrightarrow>
        list_all lower_alpha (map fst (word_frequency s)))"
proof (intro conjI impI)
  show "split [] = []" by (rule split_Nil)
  show "split (a @ c # b) = split a @ split b" if "char_isspace c"
    using that by (rule split_space)
  show "split t = [t]" if "t \<noteq> [] \<and> list_all (\<lambda>c. \<not> char_isspace c) t"
    using that by (simp add: split_token)
  show "(str_isalpha token \<and> str_isascii token) = ascii_word token"
    by (rule str_accepted)
  show "get_default (word_frequency (collect_words_from_text st text)) k
       = get_default (word_frequency st) k
         + int (length (filter (\<lambda>token. ascii_word token \<and> str_lower token = k) (split text)))"
    by (simp add: collect_words_from_text_def get_default_fold)
  show "fst ` set (word_frequency (collect_words_from_text st text))
       = fst ` set (word_frequency st) \<union> str_lower ` {token \<in> set (split text). ascii_word token}"
    by (simp add: collect_words_from_text_def keys_fold)
  show "list_all lower_alpha (map fst (word_frequency (collect_words_from_text st text)))"
    if "list_all lower_alpha (map fst (word_frequency st))"
    using lower_keys_fold [OF that] by (simp add: collect_words_from_text_def)
  show "list_all lower_alpha (map fst (word_frequency s))"
    if "init seeds out = Inr st0 \<and> s \<in> set (run rs st0)"
  proof -
    from that have "word_frequency st0 = []" using init_table by blast
    then have "list_all lower_alpha (map fst (word_frequency st0))" by simp
    with that show ?thesis using lower_keys_run by blast
  qed
qed

theorem collect_words_counts_witness:
  "split (''The'' @ CHR '' '' # ''Cat'') = split ''The'' @ split ''Cat''
   \<and> split ''Cat'' = [''Cat'']
   \<and> get_default (word_frequency (collect_words_from_text go_dev ''The Cat sat on the Mat 4x it's'')) ''the''
       = get_default (word_frequency go_dev) ''the''
         + int (length (filter (\<lambda>token. ascii_word token \<and> str_lower token = ''the'')
                          (split ''The Cat sat on the Mat 4x it's'')))
   \<and> list_all lower_alpha
        (map fst (word_frequency (collect_words_from_text go_dev ''The Cat sat on the Mat 4x it's'')))
   \<and> list_all lower_alpha
        (map fst (word_frequency
           (go_dev\<lparr>to_parse_links := [], parsed_links := [''https://go.dev''],
                word_frequency := [(''go'', 2)], current_link := Some ''https://go.dev/doc''\<rparr>)))"
proof -
  have sp: "char_isspace CHR '' ''" by code_simp
  have tk: "''Cat'' \<noteq> [] \<and> list_all (\<lambda>c. \<not> char_isspace c) ''Cat''" by code_simp
  have k0: "list_all lower_alpha (map fst (word_frequency go_dev))" by (simp add: go_dev_def)
  have m: "go_dev\<lparr>to_parse_links := [], parsed_links := [''https://go.dev''],
                word_frequency := [(''go'', 2)], current_link := Some ''https://go.dev/doc''\<rparr>
             \<in> set (run [Response ''Go go'' [''https://go.dev/doc''], RequestException] go_dev)"
    unfolding run_example by simp
  have r: "init [''https://go.dev''] ''go_english_words.txt'' = Inr go_dev
           \<and> go_dev\<lparr>to_parse_links := [], parsed_links := [''https://go.dev''],
                word_frequency := [(''go'', 2)], current_link := Some ''https://go.dev/doc''\<rparr>
             \<in> set (run [Response ''Go go'' [''https://go.dev/doc''], RequestException] go_dev)"
    using init_go_dev m by (rule conjI)
  note w = collect_words_counts [of "CHR '' ''" "''The''" "''Cat''" "''Cat''" "''Cat''" go_dev
        "''The Cat sat on the Mat 4x it's''" "''the''" "[''https://go.dev'']" "''go_english_words.txt''"
        go_dev "go_dev\<lparr>to_parse_links := [], parsed_links := [''https://go.dev''],
                word_frequency := [(''go'', 2)], current_link := Some ''https://go.dev/doc''\<rparr>"
        "[Response ''Go go'' [''https://go.dev/doc''], RequestException]"]
  from w sp tk k0 r show ?thesis by blast
qed

section \<open>Claim C7: sorting the table\<close>

text \<open>
  Claim C7. For a table, whose keys are distinct as the keys of a dictionary are,
  \<open>sort_word_frequency\<close> yields a permutation of the items, ordered by descending count,
  in which the items of any one count keep their order.
\<close>

theorem sort_word_frequency_stable:
  assumes "distinct (map fst (word_frequency st))"
  shows "mset (word_frequency (sort_word_frequency st)) = mset (word_frequency st)
         \<and> sorted_wrt (\<lambda>a b. snd b \<le> snd a) (word_frequency (sort_word_frequency st))
         \<and> filter (\<lambda>item. snd item = n) (word_frequency (sort_word_frequency st))
             = filter (\<lambda>item. snd item = n) (word_frequency st)"
proof -
  have "filter (\<lambda>item. - snd item = - n) (sorted_desc (word_frequency st))
          = filter (\<lambda>item. - snd item = - n) (word_frequency st)"
    unfolding sorted_desc_def by (rule sort_key_stable)
  then show ?thesis
    using assms by (simp add: sort_word_frequency_distinct sorted_desc_descending)
      (simp add: sorted_desc_def)
qed

theorem sort_word_frequency_stable_witness:
  "mset (word_frequency (sort_word_frequency
      (go_dev\<lparr>word_frequency := [(''cat'', 1), (''the'', 2), (''sat'', 1), (''on'', 2)]\<rparr>)))
     = mset [(''cat'', 1), (''the'', 2), (''sat'', 1), (''on'', 2)]
   \<and> sorted_wrt (\<lambda>a b. snd b \<le> snd a) (word_frequency (sort_word_frequency
      (go_dev\<lparr>word_frequency := [(''cat'', 1), (''the'', 2), (''sat'', 1), (''on'', 2)]\<rparr>)))
   \<and> filter (\<lambda>item. snd item = 1) (word_frequency (sort_word_frequency
      (go_dev\<lparr>word_frequency := [(''cat'', 1), (''the'', 2), (''sat'', 1), (''on'', 2)]\<rparr>)))
     = [(''cat'', 1), (''sat'', 1)]"
proof -
  have d: "distinct (map fst (word_frequency
      (go_dev\<lparr>word_frequency := [(''cat'', 1), (''the'', 2), (''sat'', 1), (''on'', 2)]\<rparr>)))"
    by simp
  from sort_word_frequency_stable [OF d, of 1] show ?thesis by simp
qed

section \<open>Claim C8: the frontier is a queue\<close>

text \<open>
  Claim C8. A pass through the loop body takes the first URL of the frontier and leaves
  the others at the front in their order; the classifier leaves the frontier at the front
  in its order, so what it adds comes last. Hence, from any state, the URLs that a run
  requests are the URLs of the frontier in their order, as far as the run gets and before
  any URL admitted later.
\<close>

theorem frontier_fifo:
  "(loop_body r st = Inr st1 \<longrightarrow>
      current_link st1 = Some (hd (to_parse_links st))
      \<and> prefix (tl (to_parse_links st)) (to_parse_links st1))
   \<and> (parse_url st url = Inr st2 \<longrightarrow> prefix (to_parse_links st) (to_parse_links st2))
   \<and> take (length (to_parse_links st)) (fetched rs st)
       = take (length (fetched rs st)) (to_parse_links st)"
proof -
  have a: "current_link st1 = Some (hd (to_parse_links st))
      \<and> prefix (tl (to_parse_links st)) (to_parse_links st1)" if b: "loop_body r st = Inr st1"
  proof (cases "to_parse_links st")
    case Nil
    with b show ?thesis by (simp add: loop_body_def)
  next
    case (Cons link rest)
    from loop_body_Inr [OF b Cons] Cons show ?thesis by auto
  qed
  have b: "prefix (to_parse_links st) (to_parse_links st2)" if "parse_url st url = Inr st2"
    using parse_url_Inr [OF that] by (auto split: if_splits)
  have c: "take (length (to_parse_links st)) (fetched rs st)
       = take (length (fetched rs st)) (to_parse_links st)"
    using fetched_fifo [of rs st] by (auto simp: prefix_def)
  from a b c show ?thesis by blast
qed

theorem frontier_fifo_witness:
  "current_link (go_dev\<lparr>to_parse_links := [''https://go.dev/doc''], parsed_links := [''https://go.dev''],
                word_frequency := [(''go'', 2)], current_link := Some ''https://go.dev''\<rparr>)
     = Some (hd (to_parse_links go_dev))
   \<and> prefix (to_parse_links go_dev)
        (to_parse_links (go_dev\<lparr>to_parse_links := [''https://go.dev'', ''https://go.dev/doc'']\<rparr>))
   \<and> take (length (to_parse_links go_dev))
        (fetched [Response ''Go go'' [''https://go.dev/doc'', ''https://go.dev/blog''], RequestException,
            Response ''Go'' []] go_dev)
     = take (length (fetched [Response ''Go go'' [''https://go.dev/doc'', ''https://go.dev/blog''],
            RequestException, Response ''Go'' []] go_dev)) (to_parse_links go_dev)"
proof -
  note w = frontier_fifo [of "Response ''Go go'' [''https://go.dev/doc'']" go_dev
      "go_dev\<lparr>to_parse_links := [''https://go.dev/doc''], parsed_links := [''https://go.dev''],
                word_frequency := [(''go'', 2)], current_link := Some ''https://go.dev''\<rparr>"
      "''https://go.dev/doc''"
      "go_dev\<lparr>to_parse_links := [''https://go.dev'', ''https://go.dev/doc'']\<rparr>"
      "[Response ''Go go'' [''https://go.dev/doc'', ''https://go.dev/blog''], RequestException,
            Response ''Go'' []]"]
  from w loop_body_page parse_url_doc show ?thesis by blast
qed

section \<open>Claim C9: writing and reading the table\<close>



section \<open>Claim C10: the constructor\<close>




end
